theory Spec2Isabelle
  imports Main "HOL-Library.AList"
begin

section \<open>The chat server of server.go\<close>

text \<open>
  The server keeps a map from client identifiers to clients; every client owns a
  buffered Go channel of strings. Channels are reference values: a client that was
  replaced or removed in the map still exists for whoever holds it. The model therefore
  keeps all channels ever made in a store (a list indexed by address) and lets a client
  hold the address of its channel.

  Go strings are byte sequences, and so are the strings here. Log output
  (\<^verbatim>\<open>log.Printf\<close>) is not part of the model; the mutex is not either: every locked
  section is one step.
\<close>

subsection \<open>Channels\<close>

record chan =
  buf :: "string list"
  cap :: nat
  closed :: bool

text \<open>\<^verbatim>\<open>make(chan string, n)\<close>\<close>

definition make_chan :: "nat \<Rightarrow> chan" where
  "make_chan n = \<lparr>buf = [], cap = n, closed = False\<rparr>"

text \<open>What brings the Go process down: a send on a closed channel, closing a closed
  channel, and the use of a reference that points nowhere.\<close>

datatype fault = SendOnClosedChannel | CloseOfClosedChannel | InvalidAddress

text \<open>
  The statement \<^verbatim>\<open>select { case ch <- msg: default: log... }\<close> of
  \<^verbatim>\<open>broadcastToOthers\<close>: the send happens when the buffer has room, the default
  branch (which only logs) is taken when it has none, and a closed channel panics.
\<close>

definition select_send :: "chan \<Rightarrow> string \<Rightarrow> fault + chan" where
  "select_send ch msg =
     (if closed ch then Inl SendOnClosedChannel
      else if length (buf ch) < cap ch then Inr (ch\<lparr>buf := buf ch @ [msg]\<rparr>)
      else Inr ch)"

text \<open>
  The receive \<^verbatim>\<open>msg := <-ch\<close>: the oldest buffered value when there is one; on an
  empty closed channel the zero value of the element type, the empty string, at once;
  on an empty open channel the receiver blocks (\<open>None\<close>).
\<close>

definition chan_recv :: "chan \<Rightarrow> (string \<times> chan) option" where
  "chan_recv ch =
     (case buf ch of
        m # ms \<Rightarrow> Some (m, ch\<lparr>buf := ms\<rparr>)
      | [] \<Rightarrow> (if closed ch then Some ([], ch) else None))"

text \<open>\<^verbatim>\<open>close(ch)\<close>\<close>

definition close_chan :: "chan \<Rightarrow> fault + chan" where
  "close_chan ch = (if closed ch then Inl CloseOfClosedChannel else Inr (ch\<lparr>closed := True\<rparr>))"

definition chan_at :: "chan list \<Rightarrow> nat \<Rightarrow> chan option" where
  "chan_at h a = (if a < length h then Some (h ! a) else None)"

subsection \<open>The server's data\<close>

text \<open>The field \<^verbatim>\<open>conn\<close> of \<^verbatim>\<open>Client\<close> is never set nor read.\<close>

record Client =
  cid :: string
  sendChan :: nat

text \<open>
  \<open>clients\<close> is the Go map, as an association list with distinct keys; the order of
  the list stands for the unspecified order in which Go iterates over a map. \<open>chans\<close>
  is the store of channels.
\<close>

record ChatServer =
  clients :: "(string \<times> Client) list"
  nextID :: int
  chans :: "chan list"

record Message =
  ClientID :: string
  Content :: string

record JoinRequest =
  req_ClientID :: string

record JoinResponse =
  res_ClientID :: string

text \<open>
  What a call of an RPC method comes to: it returns (the error's text, or the reply)
  and leaves the server in a state; or it panics; or it never returns by itself.
\<close>

datatype 'r outcome =
    Returned "string + 'r" ChatServer
  | Panicked fault
  | Blocks

text \<open>The server \<^verbatim>\<open>main\<close> starts with.\<close>

definition init_server :: ChatServer where
  "init_server = \<lparr>clients = [], nextID = 1, chans = []\<rparr>"

subsection \<open>broadcastToOthers\<close>

fun broadcast_loop :: "(string \<times> Client) list \<Rightarrow> string \<Rightarrow> string \<Rightarrow> chan list \<Rightarrow> fault + chan list" where
  "broadcast_loop [] senderID msg h = Inr h"
| "broadcast_loop ((i, client) # rest) senderID msg h =
     (if i \<noteq> senderID then
        (case chan_at h (sendChan client) of
           None \<Rightarrow> Inl InvalidAddress
         | Some ch \<Rightarrow>
             (case select_send ch msg of
                Inl f \<Rightarrow> Inl f
              | Inr ch' \<Rightarrow> broadcast_loop rest senderID msg (h[sendChan client := ch'])))
      else broadcast_loop rest senderID msg h)"

definition broadcastToOthers :: "ChatServer \<Rightarrow> string \<Rightarrow> string \<Rightarrow> fault + ChatServer" where
  "broadcastToOthers c senderID msg =
     (case broadcast_loop (clients c) senderID msg (chans c) of
        Inl f \<Rightarrow> Inl f
      | Inr h \<Rightarrow> Inr (c\<lparr>chans := h\<rparr>))"

subsection \<open>The RPC methods\<close>

text \<open>The four bytes of U+1F4E2 in UTF-8, with which the notices start.\<close>

definition loudspeaker :: string where
  "loudspeaker = [CHR 0xF0, CHR 0x9F, CHR 0x93, CHR 0xA2]"

definition joinMsg :: "string \<Rightarrow> string" where
  "joinMsg i = loudspeaker @ '' User '' @ i @ '' joined''"

definition leaveMsg :: "string \<Rightarrow> string" where
  "leaveMsg i = loudspeaker @ '' User '' @ i @ '' left''"

definition broadcastMsg :: "Message \<Rightarrow> string" where
  "broadcastMsg msg = ''['' @ ClientID msg @ '']: '' @ Content msg"

text \<open>The locked section of \<^verbatim>\<open>Join\<close>: a new client with a new channel of capacity
  10 is stored under the identifier, over whatever was there.\<close>

definition join_register :: "ChatServer \<Rightarrow> string \<Rightarrow> ChatServer" where
  "join_register c i =
     c\<lparr>clients := AList.update i \<lparr>cid = i, sendChan = length (chans c)\<rparr> (clients c),
       chans := chans c @ [make_chan 10]\<rparr>"

definition Join :: "ChatServer \<Rightarrow> JoinRequest \<Rightarrow> JoinResponse outcome" where
  "Join c req =
     (case broadcastToOthers (join_register c (req_ClientID req)) (req_ClientID req)
             (joinMsg (req_ClientID req)) of
        Inl f \<Rightarrow> Panicked f
      | Inr c' \<Rightarrow> Returned (Inr \<lparr>res_ClientID = req_ClientID req\<rparr>) c')"

definition SendMessage :: "ChatServer \<Rightarrow> Message \<Rightarrow> Message outcome" where
  "SendMessage c msg =
     (case broadcastToOthers c (ClientID msg) (broadcastMsg msg) of
        Inl f \<Rightarrow> Panicked f
      | Inr c' \<Rightarrow> Returned (Inr \<lparr>ClientID = ClientID msg, Content = ''message_received''\<rparr>) c')"

text \<open>The locked section of \<^verbatim>\<open>Leave\<close>: when the identifier is a key, the entry is
  deleted and the client's channel closed.\<close>

definition leave_remove :: "ChatServer \<Rightarrow> string \<Rightarrow> fault + ChatServer" where
  "leave_remove c i =
     (case map_of (clients c) i of
        None \<Rightarrow> Inr c
      | Some client \<Rightarrow>
          (case chan_at (chans c) (sendChan client) of
             None \<Rightarrow> Inl InvalidAddress
           | Some ch \<Rightarrow>
               (case close_chan ch of
                  Inl f \<Rightarrow> Inl f
                | Inr ch' \<Rightarrow>
                    Inr (c\<lparr>clients := AList.delete i (clients c),
                           chans := (chans c)[sendChan client := ch']\<rparr>))))"

definition Leave :: "ChatServer \<Rightarrow> JoinRequest \<Rightarrow> JoinResponse outcome" where
  "Leave c req =
     (case leave_remove c (req_ClientID req) of
        Inl f \<Rightarrow> Panicked f
      | Inr c1 \<Rightarrow>
          (case broadcastToOthers c1 (req_ClientID req) (leaveMsg (req_ClientID req)) of
             Inl f \<Rightarrow> Panicked f
           | Inr c2 \<Rightarrow> Returned (Inr \<lparr>res_ClientID = req_ClientID req\<rparr>) c2))"

text \<open>The second half of \<^verbatim>\<open>GetMessages\<close>, after the lock is released: the receive
  on the channel of the client that was found, and the reply of one message.\<close>

definition receive_one :: "ChatServer \<Rightarrow> Client \<Rightarrow> string list outcome" where
  "receive_one c client =
     (case chan_at (chans c) (sendChan client) of
        None \<Rightarrow> Panicked InvalidAddress
      | Some ch \<Rightarrow>
          (case chan_recv ch of
             None \<Rightarrow> Blocks
           | Some (msg, ch') \<Rightarrow>
               Returned (Inr [msg]) (c\<lparr>chans := (chans c)[sendChan client := ch']\<rparr>)))"

definition GetMessages :: "ChatServer \<Rightarrow> string \<Rightarrow> string list outcome" where
  "GetMessages c clientID =
     (case map_of (clients c) clientID of
        None \<Rightarrow> Returned (Inl (''client '' @ clientID @ '' not found'')) c
      | Some client \<Rightarrow> receive_one c client)"

subsection \<open>Sequences of calls\<close>

text \<open>The four operations the server offers, by the names the specification gives them,
  and a run of calls one after the other. A call that panics or that never returns has
  no state after it.\<close>

datatype op = OpJoin string | OpPost string string | OpLeave string | OpPollOne string

fun after :: "'r outcome \<Rightarrow> ChatServer option" where
  "after (Returned r c) = Some c"
| "after (Panicked f) = None"
| "after Blocks = None"

fun step :: "ChatServer \<Rightarrow> op \<Rightarrow> ChatServer option" where
  "step c (OpJoin i) = after (Join c \<lparr>req_ClientID = i\<rparr>)"
| "step c (OpPost i text) = after (SendMessage c \<lparr>ClientID = i, Content = text\<rparr>)"
| "step c (OpLeave i) = after (Leave c \<lparr>req_ClientID = i\<rparr>)"
| "step c (OpPollOne i) = after (GetMessages c i)"

fun run :: "ChatServer \<Rightarrow> op list \<Rightarrow> ChatServer option" where
  "run c [] = Some c"
| "run c (x # xs) = (case step c x of None \<Rightarrow> None | Some c' \<Rightarrow> run c' xs)"

text \<open>The participants that have joined and not left since, by the history of calls
  alone: this is the specification's notion, against which the map of the server is
  compared.\<close>

fun joined_after :: "string set \<Rightarrow> op list \<Rightarrow> string set" where
  "joined_after J [] = J"
| "joined_after J (OpJoin i # xs) = joined_after (insert i J) xs"
| "joined_after J (OpLeave i # xs) = joined_after (J - {i}) xs"
| "joined_after J (OpPost i text # xs) = joined_after J xs"
| "joined_after J (OpPollOne i # xs) = joined_after J xs"

subsection \<open>The invariant of the server\<close>

text \<open>The addresses of the channels a broadcast sends to.\<close>

definition targets :: "(string \<times> Client) list \<Rightarrow> string \<Rightarrow> nat set" where
  "targets es senderID = {sendChan (snd e) | e. e \<in> set es \<and> fst e \<noteq> senderID}"

text \<open>An entry of the map holds a client that carries the key as its identifier and
  owns an open channel of the store.\<close>

definition entry_ok :: "chan list \<Rightarrow> string \<times> Client \<Rightarrow> bool" where
  "entry_ok h e \<longleftrightarrow>
     cid (snd e) = fst e \<and> sendChan (snd e) < length h \<and> \<not> closed (h ! sendChan (snd e))"

text \<open>A channel was made with capacity 10, holds no more than that, and holds no empty
  text.\<close>

definition chan_ok :: "chan \<Rightarrow> bool" where
  "chan_ok ch \<longleftrightarrow> cap ch = 10 \<and> length (buf ch) \<le> 10 \<and> [] \<notin> set (buf ch)"

text \<open>The keys are distinct (it is a map), no two entries share a channel, every entry
  and every channel is as above.\<close>

definition server_inv :: "ChatServer \<Rightarrow> bool" where
  "server_inv c \<longleftrightarrow>
     distinct (map fst (clients c)) \<and>
     distinct (map (\<lambda>e. sendChan (snd e)) (clients c)) \<and>
     (\<forall>e\<in>set (clients c). entry_ok (chans c) e) \<and>
     (\<forall>ch\<in>set (chans c). chan_ok ch)"

text \<open>Every entry of the map leads to an open channel of the store: what a broadcast
  needs in order not to panic.\<close>

definition registered_open :: "ChatServer \<Rightarrow> bool" where
  "registered_open c \<longleftrightarrow>
     (\<forall>e\<in>set (clients c). sendChan (snd e) < length (chans c) \<and>
                             \<not> closed (chans c ! sendChan (snd e)))"

text \<open>What the caller of a method gets back, when the call returns.\<close>

fun reply_of :: "'r outcome \<Rightarrow> (string + 'r) option" where
  "reply_of (Returned r c) = Some r"
| "reply_of (Panicked f) = None"
| "reply_of Blocks = None"

text \<open>Two states for the examples: the server after \<^verbatim>\<open>B\<close> joined, and after
  \<^verbatim>\<open>A\<close> and then \<^verbatim>\<open>B\<close> joined.\<close>

definition ex_B :: ChatServer where
  "ex_B = \<lparr>clients = [(''B'', \<lparr>cid = ''B'', sendChan = 0\<rparr>)], nextID = 1,
           chans = [\<lparr>buf = [], cap = 10, closed = False\<rparr>]\<rparr>"

definition ex_AB :: ChatServer where
  "ex_AB = \<lparr>clients = [(''A'', \<lparr>cid = ''A'', sendChan = 0\<rparr>), (''B'', \<lparr>cid = ''B'', sendChan = 1\<rparr>)],
            nextID = 1,
            chans = [\<lparr>buf = [joinMsg ''B''], cap = 10, closed = False\<rparr>,
                     \<lparr>buf = [], cap = 10, closed = False\<rparr>]\<rparr>"

text \<open>A state with a full channel: \<^verbatim>\<open>A\<close> and \<^verbatim>\<open>B\<close> join, \<^verbatim>\<open>B\<close> posts eight
  times, \<^verbatim>\<open>C\<close> joins. The channel of \<^verbatim>\<open>A\<close> then holds 10 texts.\<close>

definition ops_full :: "op list" where
  "ops_full = [OpJoin ''A'', OpJoin ''B''] @ replicate 8 (OpPost ''B'' ''x'') @ [OpJoin ''C'']"

definition ex_full :: ChatServer where
  "ex_full =
     \<lparr>clients = [(''A'', \<lparr>cid = ''A'', sendChan = 0\<rparr>), (''B'', \<lparr>cid = ''B'', sendChan = 1\<rparr>),
                 (''C'', \<lparr>cid = ''C'', sendChan = 2\<rparr>)],
      nextID = 1,
      chans = [\<lparr>buf = [joinMsg ''B''] @ replicate 8 ''[B]: x'' @ [joinMsg ''C''], cap = 10, closed = False\<rparr>,
               \<lparr>buf = [joinMsg ''C''], cap = 10, closed = False\<rparr>,
               \<lparr>buf = [], cap = 10, closed = False\<rparr>]\<rparr>"

text \<open>The server after \<^verbatim>\<open>A\<close> and \<^verbatim>\<open>B\<close> joined and \<^verbatim>\<open>B\<close> left.\<close>

definition ex_AB_left :: ChatServer where
  "ex_AB_left =
     \<lparr>clients = [(''A'', \<lparr>cid = ''A'', sendChan = 0\<rparr>)], nextID = 1,
      chans = [\<lparr>buf = [joinMsg ''B'', leaveMsg ''B''], cap = 10, closed = False\<rparr>,
               \<lparr>buf = [], cap = 10, closed = True\<rparr>]\<rparr>"

text \<open>A run with all four operations: \<^verbatim>\<open>A\<close> and \<^verbatim>\<open>B\<close> join, \<^verbatim>\<open>A\<close> posts,
  \<^verbatim>\<open>B\<close> polls, \<^verbatim>\<open>B\<close> leaves.\<close>

definition ops_all :: "op list" where
  "ops_all = [OpJoin ''A'', OpJoin ''B'', OpPost ''A'' ''hi'', OpPollOne ''B'', OpLeave ''B'']"



section \<open>Properties\<close>

subsection \<open>The broadcast loop\<close>

lemma targets_Nil [simp]: "targets [] s = {}"
  by (simp add: targets_def)

lemma targets_Cons [simp]:
  "targets ((i, cl) # es) s = (if i \<noteq> s then insert (sendChan cl) (targets es s) else targets es s)"
  by (auto simp: targets_def)

lemma targets_subset: "targets es s \<subseteq> (\<lambda>e. sendChan (snd e)) ` set es"
  by (force simp: targets_def)

lemma select_send_open:
  "\<not> closed ch \<Longrightarrow> \<exists>ch'. select_send ch msg = Inr ch' \<and> \<not> closed ch' \<and> cap ch' = cap ch"
  by (simp add: select_send_def)

lemma broadcast_loop_result:
  assumes "\<forall>e\<in>set es. sendChan (snd e) < length h \<and> \<not> closed (h ! sendChan (snd e))"
    and "distinct (map (\<lambda>e. sendChan (snd e)) es)"
  shows "\<exists>h'. broadcast_loop es s msg h = Inr h' \<and> length h' = length h \<and>
           (\<forall>a<length h. if a \<in> targets es s then select_send (h ! a) msg = Inr (h' ! a)
                          else h' ! a = h ! a)"
  using assms
proof (induction es arbitrary: h)
  case Nil
  then show ?case by simp
next
  case (Cons e es)
  obtain i cl where e: "e = (i, cl)" by (cases e)
  from Cons.prems e have a0: "sendChan cl < length h" and op: "\<not> closed (h ! sendChan cl)"
    and fresh: "sendChan cl \<notin> (\<lambda>e. sendChan (snd e)) ` set es" and dist: "distinct (map (\<lambda>e. sendChan (snd e)) es)"
    by auto
  show ?case
  proof (cases "i = s")
    case True
    from Cons.prems have "\<forall>e\<in>set es. sendChan (snd e) < length h \<and> \<not> closed (h ! sendChan (snd e))"
      by simp
    from Cons.IH [OF this dist] True e show ?thesis by simp
  next
    case False
    from select_send_open [OF op] obtain ch' where
      ch': "select_send (h ! sendChan cl) msg = Inr ch'" "\<not> closed ch'" by blast
    let ?h1 = "h[sendChan cl := ch']"
    have "\<forall>e\<in>set es. sendChan (snd e) < length ?h1 \<and> \<not> closed (?h1 ! sendChan (snd e))"
    proof
      fix e' assume e': "e' \<in> set es"
      with Cons.prems(1) have "sendChan (snd e') < length h" "\<not> closed (h ! sendChan (snd e'))"
        by auto
      with ch'(2) show "sendChan (snd e') < length ?h1 \<and> \<not> closed (?h1 ! sendChan (snd e'))"
        by (cases "sendChan (snd e') = sendChan cl") simp_all
    qed
    from Cons.IH [OF this dist] obtain h' where
      h': "broadcast_loop es s msg ?h1 = Inr h'" "length h' = length h"
        "\<forall>a<length h. if a \<in> targets es s then select_send (?h1 ! a) msg = Inr (h' ! a)
                          else h' ! a = ?h1 ! a"
      by auto
    have notin: "sendChan cl \<notin> targets es s"
      using fresh targets_subset by blast
    have "\<forall>a<length h. if a \<in> targets (e # es) s then select_send (h ! a) msg = Inr (h' ! a)
                          else h' ! a = h ! a"
    proof (intro allI impI)
      fix a assume a: "a < length h"
      show "if a \<in> targets (e # es) s then select_send (h ! a) msg = Inr (h' ! a)
                          else h' ! a = h ! a"
      proof (cases "a = sendChan cl")
        case True
        from h'(3) a have "if a \<in> targets es s then select_send (?h1 ! a) msg = Inr (h' ! a)
                          else h' ! a = ?h1 ! a" by blast
        with True a notin have "h' ! a = ch'" by simp
        with True ch'(1) e False show ?thesis by simp
      next
        case neq: False
        from h'(3) a have "if a \<in> targets es s then select_send (?h1 ! a) msg = Inr (h' ! a)
                          else h' ! a = ?h1 ! a" by blast
        with neq e False show ?thesis by (simp split: if_splits)
      qed
    qed
    with h'(1,2) e False a0 ch'(1) show ?thesis
      by (simp add: chan_at_def)
  qed
qed

subsection \<open>The invariant is kept\<close>

lemma server_inv_init: "server_inv init_server"
  by (simp add: server_inv_def init_server_def)

lemma broadcastToOthers_result:
  assumes "server_inv c"
  shows "\<exists>h'. broadcastToOthers c s msg = Inr (c\<lparr>chans := h'\<rparr>) \<and> length h' = length (chans c) \<and>
           (\<forall>a<length (chans c).
              if a \<in> targets (clients c) s then select_send (chans c ! a) msg = Inr (h' ! a)
              else h' ! a = chans c ! a)"
proof -
  from assms have "\<forall>e\<in>set (clients c). sendChan (snd e) < length (chans c) \<and>
      \<not> closed (chans c ! sendChan (snd e))"
    and "distinct (map (\<lambda>e. sendChan (snd e)) (clients c))"
    by (simp_all add: server_inv_def entry_ok_def)
  from broadcast_loop_result [OF this, of s msg] show ?thesis
    by (auto simp: broadcastToOthers_def)
qed

lemma select_send_chan_ok:
  "chan_ok ch \<Longrightarrow> msg \<noteq> [] \<Longrightarrow> select_send ch msg = Inr ch' \<Longrightarrow> chan_ok ch'"
  by (auto simp: select_send_def chan_ok_def split: if_splits)

lemma select_send_closed:
  "select_send ch msg = Inr ch' \<Longrightarrow> closed ch' = closed ch"
  by (auto simp: select_send_def split: if_splits)

lemma broadcastToOthers_inv:
  assumes "server_inv c" and "msg \<noteq> []" and "broadcastToOthers c s msg = Inr c'"
  shows "server_inv c'"
proof -
  from broadcastToOthers_result [OF assms(1), of s msg] assms(3) obtain h' where
    c': "c' = c\<lparr>chans := h'\<rparr>" and len: "length h' = length (chans c)" and
    at: "\<forall>a<length (chans c).
              if a \<in> targets (clients c) s then select_send (chans c ! a) msg = Inr (h' ! a)
              else h' ! a = chans c ! a"
    by auto
  have ok: "\<forall>a<length (chans c). chan_ok (chans c ! a)"
    using assms(1) by (simp add: server_inv_def all_set_conv_all_nth)
  have step: "chan_ok (h' ! a) \<and> closed (h' ! a) = closed (chans c ! a)" if a: "a < length (chans c)" for a
  proof -
    from at a have "if a \<in> targets (clients c) s then select_send (chans c ! a) msg = Inr (h' ! a)
              else h' ! a = chans c ! a" by blast
    with ok a assms(2) show ?thesis
      by (auto split: if_splits dest: select_send_chan_ok select_send_closed)
  qed
  have "\<forall>ch\<in>set h'. chan_ok ch"
    using step len by (simp add: all_set_conv_all_nth)
  moreover have "\<forall>e\<in>set (clients c). entry_ok h' e"
    using assms(1) step len by (auto simp: server_inv_def entry_ok_def)
  ultimately show ?thesis
    using assms(1) c' by (simp add: server_inv_def)
qed

lemma set_update_subset: "set (AList.update k v es) \<subseteq> insert (k, v) (set es)"
  by (induction es) auto

lemma distinct_update_addr:
  "distinct (map (\<lambda>e. f (snd e)) es) \<Longrightarrow> f v \<notin> (\<lambda>e. f (snd e)) ` set es \<Longrightarrow>
   distinct (map (\<lambda>e. f (snd e)) (AList.update k v es))"
proof (induction es)
  case Nil
  then show ?case by simp
next
  case (Cons e es)
  obtain k' v' where e: "e = (k', v')" by (cases e)
  show ?case
  proof (cases "k' = k")
    case True
    with Cons.prems e show ?thesis by (auto simp: image_iff)
  next
    case False
    from Cons have d: "distinct (map (\<lambda>e. f (snd e)) (AList.update k v es))" by simp
    have "f v' \<notin> (\<lambda>e. f (snd e)) ` set (AList.update k v es)"
    proof
      assume "f v' \<in> (\<lambda>e. f (snd e)) ` set (AList.update k v es)"
      then obtain x where x: "x \<in> set (AList.update k v es)" "f v' = f (snd x)" by auto
      with set_update_subset [of k v es] have "x = (k, v) \<or> x \<in> set es" by auto
      with x(2) Cons.prems e show False by (auto simp: image_iff)
    qed
    with d e False show ?thesis by simp
  qed
qed

lemma join_register_inv:
  assumes "server_inv c"
  shows "server_inv (join_register c i)"
proof -
  let ?cl = "\<lparr>cid = i, sendChan = length (chans c)\<rparr>"
  from assms have lt: "\<forall>e\<in>set (clients c). sendChan (snd e) < length (chans c)"
    by (simp add: server_inv_def entry_ok_def)
  then have fresh: "sendChan ?cl \<notin> (\<lambda>e. sendChan (snd e)) ` set (clients c)"
    by auto
  have d1: "distinct (map fst (AList.update i ?cl (clients c)))"
    using assms by (simp add: server_inv_def distinct_update)
  have d2: "distinct (map (\<lambda>e. sendChan (snd e)) (AList.update i ?cl (clients c)))"
    using assms fresh by (intro distinct_update_addr) (simp_all add: server_inv_def)
  have e: "\<forall>e\<in>set (AList.update i ?cl (clients c)). entry_ok (chans c @ [make_chan 10]) e"
  proof
    fix e assume "e \<in> set (AList.update i ?cl (clients c))"
    with set_update_subset have "e = (i, ?cl) \<or> e \<in> set (clients c)" by fastforce
    then show "entry_ok (chans c @ [make_chan 10]) e"
      using assms by (auto simp: server_inv_def entry_ok_def make_chan_def nth_append)
  qed
  have "\<forall>ch\<in>set (chans c @ [make_chan 10]). chan_ok ch"
    using assms by (auto simp: server_inv_def chan_ok_def make_chan_def)
  with d1 d2 e show ?thesis
    by (simp add: server_inv_def join_register_def)
qed

lemma leave_remove_absent:
  "map_of (clients c) i = None \<Longrightarrow> leave_remove c i = Inr c"
  by (simp add: leave_remove_def)

lemma leave_remove_present:
  assumes "server_inv c" and "map_of (clients c) i = Some cl"
  shows "leave_remove c i =
           Inr (c\<lparr>clients := AList.delete i (clients c),
                  chans := (chans c)[sendChan cl := (chans c ! sendChan cl)\<lparr>closed := True\<rparr>]\<rparr>)"
proof -
  from assms(2) have "(i, cl) \<in> set (clients c)" by (rule map_of_SomeD)
  with assms(1) have "entry_ok (chans c) (i, cl)" by (auto simp: server_inv_def)
  with assms(2) show ?thesis
    by (simp add: leave_remove_def entry_ok_def chan_at_def close_chan_def)
qed

lemma distinct_map_eq:
  "distinct (map f xs) \<Longrightarrow> x \<in> set xs \<Longrightarrow> y \<in> set xs \<Longrightarrow> f x = f y \<Longrightarrow> x = y"
  by (auto simp: distinct_map dest: inj_onD)

lemma leave_remove_inv:
  assumes "server_inv c" and "leave_remove c i = Inr c'"
  shows "server_inv c'"
proof (cases "map_of (clients c) i")
  case None
  with assms show ?thesis by (simp add: leave_remove_absent)
next
  case (Some cl)
  let ?a = "sendChan cl"
  let ?h = "(chans c)[?a := (chans c ! ?a)\<lparr>closed := True\<rparr>]"
  from leave_remove_present [OF assms(1) Some] assms(2)
  have c': "c' = c\<lparr>clients := AList.delete i (clients c), chans := ?h\<rparr>" by simp
  from Some have mem: "(i, cl) \<in> set (clients c)" by (rule map_of_SomeD)
  from assms(1) have dk: "distinct (map fst (clients c))"
    and da: "distinct (map (\<lambda>e. sendChan (snd e)) (clients c))"
    and en: "\<forall>e\<in>set (clients c). entry_ok (chans c) e"
    and ch: "\<forall>ch\<in>set (chans c). chan_ok ch"
    by (simp_all add: server_inv_def)
  from en mem have lt: "?a < length (chans c)" by (auto simp: entry_ok_def)
  have d1: "distinct (map fst (AList.delete i (clients c)))"
    using dk by (rule distinct_delete)
  have d2: "distinct (map (\<lambda>e. sendChan (snd e)) (AList.delete i (clients c)))"
    using da by (simp add: AList.delete_eq distinct_map_filter)
  have e: "\<forall>e\<in>set (AList.delete i (clients c)). entry_ok ?h e"
  proof
    fix e assume "e \<in> set (AList.delete i (clients c))"
    then have e: "e \<in> set (clients c)" "fst e \<noteq> i" by (auto simp: AList.delete_eq)
    with distinct_map_eq [OF da e(1) mem] have "sendChan (snd e) \<noteq> ?a" by auto
    with en e(1) show "entry_ok ?h e" by (auto simp: entry_ok_def)
  qed
  have "chan_ok ((chans c ! ?a)\<lparr>closed := True\<rparr>)"
    using ch lt by (simp add: chan_ok_def)
  with ch have "\<forall>ch\<in>set ?h. chan_ok ch"
    using set_update_subset_insert [of "chans c" ?a] by blast
  with d1 d2 e c' show ?thesis by (simp add: server_inv_def)
qed

lemma receive_one_inv:
  assumes "server_inv c" and "receive_one c cl = Returned r c'"
  shows "server_inv c'"
proof -
  let ?a = "sendChan cl"
  from assms(2) obtain msg ch' where lt: "?a < length (chans c)"
    and rc: "chan_recv (chans c ! ?a) = Some (msg, ch')"
    and c': "c' = c\<lparr>chans := (chans c)[?a := ch']\<rparr>"
    by (auto simp: receive_one_def chan_at_def split: if_splits option.splits)
  from assms(1) lt have ok: "chan_ok (chans c ! ?a)" by (simp add: server_inv_def)
  from rc have cl: "closed ch' = closed (chans c ! ?a)"
    by (auto simp: chan_recv_def split: list.splits if_splits)
  from rc ok have ok': "chan_ok ch'"
    by (auto simp: chan_recv_def chan_ok_def split: list.splits if_splits)
  from assms(1) have "\<forall>ch\<in>set (chans c). chan_ok ch" by (simp add: server_inv_def)
  with ok' have "\<forall>ch\<in>set ((chans c)[?a := ch']). chan_ok ch"
    using set_update_subset_insert [of "chans c" ?a] by blast
  moreover have "\<forall>e\<in>set (clients c). entry_ok ((chans c)[?a := ch']) e"
  proof
    fix e assume "e \<in> set (clients c)"
    with assms(1) have "entry_ok (chans c) e" by (simp add: server_inv_def)
    with cl show "entry_ok ((chans c)[?a := ch']) e"
      by (cases "sendChan (snd e) = ?a") (simp_all add: entry_ok_def)
  qed
  ultimately show ?thesis using assms(1) c' by (simp add: server_inv_def)
qed

lemma joinMsg_nonempty: "joinMsg i \<noteq> []"
  by (simp add: joinMsg_def loudspeaker_def)

lemma leaveMsg_nonempty: "leaveMsg i \<noteq> []"
  by (simp add: leaveMsg_def loudspeaker_def)

lemma broadcastMsg_nonempty: "broadcastMsg m \<noteq> []"
  by (simp add: broadcastMsg_def)

subsection \<open>What the methods do to a state that satisfies the invariant\<close>

lemma broadcast_effect:
  assumes "server_inv c"
  shows "\<exists>h'. broadcastToOthers c s m = Inr (c\<lparr>chans := h'\<rparr>) \<and> length h' = length (chans c) \<and>
           (\<forall>a<length (chans c).
              h' ! a = (if a \<in> targets (clients c) s \<and> length (buf (chans c ! a)) < 10
                        then (chans c ! a)\<lparr>buf := buf (chans c ! a) @ [m]\<rparr> else chans c ! a))"
proof -
  from broadcastToOthers_result [OF assms, of s m] obtain h' where
    h': "broadcastToOthers c s m = Inr (c\<lparr>chans := h'\<rparr>)" "length h' = length (chans c)"
    and at: "\<forall>a<length (chans c).
              if a \<in> targets (clients c) s then select_send (chans c ! a) m = Inr (h' ! a)
              else h' ! a = chans c ! a"
    by blast
  have "h' ! a = (if a \<in> targets (clients c) s \<and> length (buf (chans c ! a)) < 10
                        then (chans c ! a)\<lparr>buf := buf (chans c ! a) @ [m]\<rparr> else chans c ! a)"
    if a: "a < length (chans c)" for a
  proof (cases "a \<in> targets (clients c) s")
    case True
    then obtain e where e: "e \<in> set (clients c)" "a = sendChan (snd e)"
      by (auto simp: targets_def)
    with assms have "\<not> closed (chans c ! a)" by (auto simp: server_inv_def entry_ok_def)
    moreover from assms a have "cap (chans c ! a) = 10" by (simp add: server_inv_def chan_ok_def)
    moreover from at a True have "select_send (chans c ! a) m = Inr (h' ! a)" by simp
    ultimately show ?thesis using True by (auto simp: select_send_def split: if_splits)
  next
    case False
    with at a show ?thesis by simp
  qed
  with h' show ?thesis by blast
qed

lemma other_in_targets:
  "map_of es j = Some cl \<Longrightarrow> j \<noteq> s \<Longrightarrow> sendChan cl \<in> targets es s"
  by (force simp: targets_def dest: map_of_SomeD)

lemma own_notin_targets:
  assumes "distinct (map (\<lambda>e. sendChan (snd e)) es)" and "map_of es s = Some cl"
  shows "sendChan cl \<notin> targets es s"
proof
  assume "sendChan cl \<in> targets es s"
  then obtain e where e: "e \<in> set es" "fst e \<noteq> s" "sendChan (snd e) = sendChan cl"
    by (auto simp: targets_def)
  from assms(2) have "(s, cl) \<in> set es" by (rule map_of_SomeD)
  from distinct_map_eq [OF assms(1) e(1) this] e(2,3) show False by auto
qed

lemma entry_addr:
  "server_inv c \<Longrightarrow> map_of (clients c) j = Some cl \<Longrightarrow>
   sendChan cl < length (chans c) \<and> \<not> closed (chans c ! sendChan cl) \<and> cid cl = j"
  by (auto simp: server_inv_def entry_ok_def dest!: map_of_SomeD)

lemma SendMessage_effect:
  assumes "server_inv c"
  shows "\<exists>h'. SendMessage c msg =
             Returned (Inr \<lparr>ClientID = ClientID msg, Content = ''message_received''\<rparr>) (c\<lparr>chans := h'\<rparr>) \<and>
           length h' = length (chans c) \<and>
           (\<forall>a<length (chans c).
              h' ! a = (if a \<in> targets (clients c) (ClientID msg) \<and> length (buf (chans c ! a)) < 10
                        then (chans c ! a)\<lparr>buf := buf (chans c ! a) @ [broadcastMsg msg]\<rparr>
                        else chans c ! a))"
  using broadcast_effect [OF assms, of "ClientID msg" "broadcastMsg msg"]
  by (auto simp: SendMessage_def)

lemma Join_effect:
  assumes "server_inv c"
  shows "\<exists>h'. Join c req =
             Returned (Inr \<lparr>res_ClientID = req_ClientID req\<rparr>)
               ((join_register c (req_ClientID req))\<lparr>chans := h'\<rparr>) \<and>
           length h' = Suc (length (chans c)) \<and>
           (\<forall>a<Suc (length (chans c)).
              h' ! a = (if a \<in> targets (clients (join_register c (req_ClientID req))) (req_ClientID req) \<and>
                           length (buf (chans (join_register c (req_ClientID req)) ! a)) < 10
                        then (chans (join_register c (req_ClientID req)) ! a)
                               \<lparr>buf := buf (chans (join_register c (req_ClientID req)) ! a) @ [joinMsg (req_ClientID req)]\<rparr>
                        else chans (join_register c (req_ClientID req)) ! a))"
proof -
  have len: "length (chans (join_register c (req_ClientID req))) = Suc (length (chans c))"
    by (simp add: join_register_def)
  from broadcast_effect [OF join_register_inv [OF assms], of "req_ClientID req" "req_ClientID req" "joinMsg (req_ClientID req)"]
  show ?thesis unfolding len by (auto simp: Join_def)
qed

lemma Leave_effect:
  assumes "server_inv c"
  shows "\<exists>c1 h'. leave_remove c (req_ClientID req) = Inr c1 \<and> server_inv c1 \<and>
           Leave c req = Returned (Inr \<lparr>res_ClientID = req_ClientID req\<rparr>) (c1\<lparr>chans := h'\<rparr>) \<and>
           length h' = length (chans c1) \<and>
           (\<forall>a<length (chans c1).
              h' ! a = (if a \<in> targets (clients c1) (req_ClientID req) \<and> length (buf (chans c1 ! a)) < 10
                        then (chans c1 ! a)\<lparr>buf := buf (chans c1 ! a) @ [leaveMsg (req_ClientID req)]\<rparr>
                        else chans c1 ! a))"
proof -
  obtain c1 where c1: "leave_remove c (req_ClientID req) = Inr c1"
    using leave_remove_absent [of c "req_ClientID req"] leave_remove_present [OF assms, of "req_ClientID req"]
    by (cases "map_of (clients c) (req_ClientID req)") auto
  from leave_remove_inv [OF assms c1] have inv1: "server_inv c1" .
  from broadcast_effect [OF inv1, of "req_ClientID req" "leaveMsg (req_ClientID req)"] c1 inv1
  show ?thesis by (auto simp: Leave_def)
qed

lemma Join_inv: "server_inv c \<Longrightarrow> Join c req = Returned r c' \<Longrightarrow> server_inv c'"
  by (auto simp: Join_def split: sum.splits
      dest: broadcastToOthers_inv [OF join_register_inv joinMsg_nonempty])

lemma SendMessage_inv: "server_inv c \<Longrightarrow> SendMessage c msg = Returned r c' \<Longrightarrow> server_inv c'"
  by (auto simp: SendMessage_def split: sum.splits
      dest: broadcastToOthers_inv [OF _ broadcastMsg_nonempty])

lemma Leave_inv: "server_inv c \<Longrightarrow> Leave c req = Returned r c' \<Longrightarrow> server_inv c'"
  by (auto simp: Leave_def split: sum.splits
      dest: broadcastToOthers_inv [OF leave_remove_inv leaveMsg_nonempty])

lemma GetMessages_inv: "server_inv c \<Longrightarrow> GetMessages c i = Returned r c' \<Longrightarrow> server_inv c'"
  by (auto simp: GetMessages_def split: option.splits dest: receive_one_inv)

lemma after_Some: "after out = Some c' \<longleftrightarrow> (\<exists>r. out = Returned r c')"
  by (cases out) auto

lemma step_inv: "server_inv c \<Longrightarrow> step c x = Some c' \<Longrightarrow> server_inv c'"
  by (cases x) (auto simp: after_Some dest: Join_inv SendMessage_inv Leave_inv GetMessages_inv)

lemma run_inv: "server_inv c \<Longrightarrow> run c xs = Some c' \<Longrightarrow> server_inv c'"
  by (induction xs arbitrary: c) (auto split: option.splits dest: step_inv)

subsection \<open>The order of iteration does not matter\<close>

text \<open>Go iterates over a map in an unspecified order. Under the invariant the outcome of
  a broadcast is the same for every order of the entries.\<close>

lemma server_inv_reorder:
  assumes "server_inv c" and "set es = set (clients c)" and "distinct (map fst es)"
  shows "server_inv (c\<lparr>clients := es\<rparr>)"
proof -
  from assms(3) have d: "distinct es" by (simp add: distinct_map)
  from assms(1) have "inj_on (\<lambda>e. sendChan (snd e)) (set (clients c))"
    by (simp add: server_inv_def distinct_map)
  with d assms(2) have "distinct (map (\<lambda>e. sendChan (snd e)) es)"
    by (simp add: distinct_map)
  with assms show ?thesis by (simp add: server_inv_def)
qed

lemma broadcast_order_irrelevant:
  assumes "server_inv c" and "set es = set (clients c)" and "distinct (map fst es)"
  shows "\<exists>h'. broadcastToOthers c s m = Inr (c\<lparr>chans := h'\<rparr>) \<and>
              broadcastToOthers (c\<lparr>clients := es\<rparr>) s m = Inr (c\<lparr>clients := es, chans := h'\<rparr>)"
proof -
  let ?c = "c\<lparr>clients := es\<rparr>"
  have tg: "targets es s = targets (clients c) s"
    using assms(2) by (simp add: targets_def)
  from broadcast_effect [OF assms(1), of s m] obtain h1 where
    r1: "broadcastToOthers c s m = Inr (c\<lparr>chans := h1\<rparr>)" and l1: "length h1 = length (chans c)"
    and a1: "\<forall>a<length (chans c).
              h1 ! a = (if a \<in> targets (clients c) s \<and> length (buf (chans c ! a)) < 10
                        then (chans c ! a)\<lparr>buf := buf (chans c ! a) @ [m]\<rparr> else chans c ! a)"
    by blast
  from broadcast_effect [OF server_inv_reorder [OF assms], of s m] obtain h2 where
    r2: "broadcastToOthers ?c s m = Inr (?c\<lparr>chans := h2\<rparr>)" and l2: "length h2 = length (chans c)"
    and a2: "\<forall>a<length (chans c).
              h2 ! a = (if a \<in> targets es s \<and> length (buf (chans c ! a)) < 10
                        then (chans c ! a)\<lparr>buf := buf (chans c ! a) @ [m]\<rparr> else chans c ! a)"
    by auto
  have "h2 = h1"
    using l1 l2 a1 a2 tg by (intro nth_equalityI) simp_all
  with r1 r2 show ?thesis by auto
qed

subsection \<open>The example states\<close>

lemmas exec_defs =
  Join_def SendMessage_def Leave_def GetMessages_def receive_one_def leave_remove_def
  join_register_def broadcastToOthers_def chan_at_def select_send_def chan_recv_def
  close_chan_def make_chan_def init_server_def

lemmas inv_defs = server_inv_def entry_ok_def chan_ok_def

lemma run_ex_B: "run init_server [OpJoin ''B''] = Some ex_B"
  by (simp add: exec_defs ex_B_def)

lemma run_ex_AB: "run init_server [OpJoin ''A'', OpJoin ''B''] = Some ex_AB"
  by (simp add: exec_defs ex_AB_def)

lemma inv_ex_B: "server_inv ex_B"
  by (simp add: inv_defs ex_B_def)

lemma inv_ex_AB: "server_inv ex_AB"
  by (simp add: inv_defs ex_AB_def joinMsg_def loudspeaker_def)

subsection \<open>Posting under an identifier that is not registered\<close>

text \<open>
  Against C1. \<^verbatim>\<open>SendMessage\<close> never looks the sender up. With only \<^verbatim>\<open>B\<close>
  registered, a message under the identifier \<^verbatim>\<open>ghost\<close> is acknowledged like any other,
  no error is returned, and the text lands in the channel of \<^verbatim>\<open>B\<close>.
\<close>

theorem post_unknown_sender_counterexample:
  "run init_server [OpJoin ''B''] = Some ex_B \<and>
   map_of (clients ex_B) ''ghost'' = None \<and>
   SendMessage ex_B \<lparr>ClientID = ''ghost'', Content = ''hi''\<rparr> =
     Returned (Inr \<lparr>ClientID = ''ghost'', Content = ''message_received''\<rparr>)
       (ex_B\<lparr>chans := [\<lparr>buf = [''[ghost]: hi''], cap = 10, closed = False\<rparr>]\<rparr>)"
  by (simp add: exec_defs ex_B_def broadcastMsg_def)

text \<open>
  C1, amended. For every message whose sender is not a key of the map, in a state that
  satisfies the invariant, \<^verbatim>\<open>SendMessage\<close> returns no error but the ordinary
  acknowledgement, leaves the map as it is, and offers the text to the channel of every
  registered client: it is appended where fewer than 10 texts are pending, and dropped
  where 10 are.
\<close>

theorem post_unknown_sender_broadcasts:
  assumes "server_inv c" and "map_of (clients c) (ClientID msg) = None"
  shows "\<exists>c'. SendMessage c msg =
             Returned (Inr \<lparr>ClientID = ClientID msg, Content = ''message_received''\<rparr>) c' \<and>
           clients c' = clients c \<and>
           (\<forall>j cl. map_of (clients c) j = Some cl \<longrightarrow>
              chans c' ! sendChan cl =
                (if length (buf (chans c ! sendChan cl)) < 10
                 then (chans c ! sendChan cl)\<lparr>buf := buf (chans c ! sendChan cl) @ [broadcastMsg msg]\<rparr>
                 else chans c ! sendChan cl))"
proof -
  from SendMessage_effect [OF assms(1), of msg] obtain h' where
    r: "SendMessage c msg =
          Returned (Inr \<lparr>ClientID = ClientID msg, Content = ''message_received''\<rparr>) (c\<lparr>chans := h'\<rparr>)"
    and at: "\<forall>a<length (chans c).
              h' ! a = (if a \<in> targets (clients c) (ClientID msg) \<and> length (buf (chans c ! a)) < 10
                        then (chans c ! a)\<lparr>buf := buf (chans c ! a) @ [broadcastMsg msg]\<rparr>
                        else chans c ! a)"
    by blast
  have "h' ! sendChan cl =
          (if length (buf (chans c ! sendChan cl)) < 10
           then (chans c ! sendChan cl)\<lparr>buf := buf (chans c ! sendChan cl) @ [broadcastMsg msg]\<rparr>
           else chans c ! sendChan cl)"
    if j: "map_of (clients c) j = Some cl" for j cl
  proof -
    from j assms(2) have "j \<noteq> ClientID msg" by auto
    with j have "sendChan cl \<in> targets (clients c) (ClientID msg)" by (rule other_in_targets)
    moreover from entry_addr [OF assms(1) j] have "sendChan cl < length (chans c)" by simp
    ultimately show ?thesis using at by simp
  qed
  with r show ?thesis by simp
qed

text \<open>The amended C1 at the example: the text of \<^verbatim>\<open>ghost\<close> reaches \<^verbatim>\<open>B\<close>.\<close>

theorem post_unknown_sender_broadcasts_witness:
  "server_inv ex_B \<and> map_of (clients ex_B) ''ghost'' = None \<and>
   (\<exists>c'. SendMessage ex_B \<lparr>ClientID = ''ghost'', Content = ''hi''\<rparr> =
            Returned (Inr \<lparr>ClientID = ''ghost'', Content = ''message_received''\<rparr>) c' \<and>
          clients c' = clients ex_B \<and>
          buf (chans c' ! 0) = [''[ghost]: hi''])"
proof -
  have h1: "server_inv ex_B" by (rule inv_ex_B)
  have h2: "map_of (clients ex_B) (ClientID \<lparr>ClientID = ''ghost'', Content = ''hi''\<rparr>) = None"
    by (simp add: ex_B_def)
  have h3: "map_of (clients ex_B) ''B'' = Some \<lparr>cid = ''B'', sendChan = 0\<rparr>"
    by (simp add: ex_B_def)
  from post_unknown_sender_broadcasts [OF h1 h2] obtain c' where
    "SendMessage ex_B \<lparr>ClientID = ''ghost'', Content = ''hi''\<rparr> =
            Returned (Inr \<lparr>ClientID = ''ghost'', Content = ''message_received''\<rparr>) c'"
    "clients c' = clients ex_B"
    "\<forall>j cl. map_of (clients ex_B) j = Some cl \<longrightarrow>
              chans c' ! sendChan cl =
                (if length (buf (chans ex_B ! sendChan cl)) < 10
                 then (chans ex_B ! sendChan cl)\<lparr>buf := buf (chans ex_B ! sendChan cl) @ [broadcastMsg \<lparr>ClientID = ''ghost'', Content = ''hi''\<rparr>]\<rparr>
                 else chans ex_B ! sendChan cl)"
    by auto
  moreover from this(3) [rule_format, OF h3] have "buf (chans c' ! 0) = [''[ghost]: hi'']"
    by (simp add: ex_B_def broadcastMsg_def)
  ultimately show ?thesis using h1 h2 by auto
qed

subsection \<open>A post among registered clients\<close>

lemma run_ex_full: "run init_server ops_full = Some ex_full"
  by (simp add: exec_defs ops_full_def ex_full_def broadcastMsg_def eval_nat_numeral)

text \<open>
  C2. In a state that satisfies the invariant, let \<open>a\<close> and \<open>b\<close> be two different keys
  of the map, and let fewer than 10 texts be pending in the channel of \<open>b\<close>. Then
  \<^verbatim>\<open>SendMessage\<close> for \<open>a\<close> with content \<open>m\<close> returns its acknowledgement, the channel of
  \<open>b\<close> holds what it held followed by the one text \<open>[a]: m\<close>, and the channel of \<open>a\<close> is
  what it was.
\<close>

theorem post_reaches_other_not_self:
  assumes "server_inv c"
    and "map_of (clients c) a = Some ca"
    and "map_of (clients c) b = Some cb"
    and "a \<noteq> b"
    and "length (buf (chans c ! sendChan cb)) < 10"
  shows "\<exists>c'. SendMessage c \<lparr>ClientID = a, Content = m\<rparr> =
             Returned (Inr \<lparr>ClientID = a, Content = ''message_received''\<rparr>) c' \<and>
           clients c' = clients c \<and>
           buf (chans c' ! sendChan cb) = buf (chans c ! sendChan cb) @ [''['' @ a @ '']: '' @ m] \<and>
           chans c' ! sendChan ca = chans c ! sendChan ca"
proof -
  let ?msg = "\<lparr>ClientID = a, Content = m\<rparr>"
  from SendMessage_effect [OF assms(1), of ?msg] obtain h' where
    r: "SendMessage c ?msg =
          Returned (Inr \<lparr>ClientID = a, Content = ''message_received''\<rparr>) (c\<lparr>chans := h'\<rparr>)"
    and at: "\<forall>x<length (chans c).
              h' ! x = (if x \<in> targets (clients c) a \<and> length (buf (chans c ! x)) < 10
                        then (chans c ! x)\<lparr>buf := buf (chans c ! x) @ [broadcastMsg ?msg]\<rparr>
                        else chans c ! x)"
    by auto
  from assms(1) have da: "distinct (map (\<lambda>e. sendChan (snd e)) (clients c))"
    by (simp add: server_inv_def)
  from entry_addr [OF assms(1,3)] have "sendChan cb < length (chans c)" by simp
  moreover from assms(3,4) have "sendChan cb \<in> targets (clients c) a"
    by (auto intro: other_in_targets)
  ultimately have b: "h' ! sendChan cb =
      (chans c ! sendChan cb)\<lparr>buf := buf (chans c ! sendChan cb) @ [broadcastMsg ?msg]\<rparr>"
    using at assms(5) by simp
  from entry_addr [OF assms(1,2)] have "sendChan ca < length (chans c)" by simp
  moreover from own_notin_targets [OF da assms(2)] have "sendChan ca \<notin> targets (clients c) a" .
  ultimately have a: "h' ! sendChan ca = chans c ! sendChan ca"
    using at by simp
  from r a b show ?thesis by (simp add: broadcastMsg_def)
qed

text \<open>C2 at the example of the specification: after \<^verbatim>\<open>A\<close> and \<^verbatim>\<open>B\<close> joined,
  \<^verbatim>\<open>A\<close> posts \<^verbatim>\<open>hi\<close>.\<close>

theorem post_reaches_other_not_self_witness:
  "server_inv ex_AB \<and>
   map_of (clients ex_AB) ''A'' = Some \<lparr>cid = ''A'', sendChan = 0\<rparr> \<and>
   map_of (clients ex_AB) ''B'' = Some \<lparr>cid = ''B'', sendChan = 1\<rparr> \<and>
   ''A'' \<noteq> ''B'' \<and> length (buf (chans ex_AB ! 1)) < 10 \<and>
   (\<exists>c'. SendMessage ex_AB \<lparr>ClientID = ''A'', Content = ''hi''\<rparr> =
            Returned (Inr \<lparr>ClientID = ''A'', Content = ''message_received''\<rparr>) c' \<and>
          buf (chans c' ! 1) = [''[A]: hi''] \<and> chans c' ! 0 = chans ex_AB ! 0)"
proof -
  have h2: "map_of (clients ex_AB) ''A'' = Some \<lparr>cid = ''A'', sendChan = 0\<rparr>"
    and h3: "map_of (clients ex_AB) ''B'' = Some \<lparr>cid = ''B'', sendChan = 1\<rparr>"
    and h4: "''A'' \<noteq> ''B''"
    and h5: "length (buf (chans ex_AB ! sendChan \<lparr>cid = ''B'', sendChan = 1\<rparr>)) < 10"
    by (simp_all add: ex_AB_def)
  from post_reaches_other_not_self [OF inv_ex_AB h2 h3 h4 h5, of "''hi''"]
  show ?thesis using inv_ex_AB h2 h3 h5 by (auto simp: ex_AB_def)
qed

subsection \<open>Full channels\<close>

text \<open>
  C4. In every state a run of calls from the start leads to, every channel has capacity
  10 and holds at most 10 texts. In such a state \<^verbatim>\<open>SendMessage\<close> returns its
  acknowledgement and no error, whatever the channels hold; the channel of a registered
  client other than the sender is left exactly as it was when it holds 10 texts, and
  has the text appended otherwise, independently of the other recipients.
\<close>

theorem full_mailbox_drops:
  assumes "run init_server ops = Some c"
  shows "(\<forall>ch\<in>set (chans c). cap ch = 10 \<and> length (buf ch) \<le> 10) \<and>
         (\<exists>c'. SendMessage c msg =
                  Returned (Inr \<lparr>ClientID = ClientID msg, Content = ''message_received''\<rparr>) c' \<and>
                clients c' = clients c \<and>
                (\<forall>j cl. map_of (clients c) j = Some cl \<and> j \<noteq> ClientID msg \<longrightarrow>
                   chans c' ! sendChan cl =
                     (if length (buf (chans c ! sendChan cl)) = 10 then chans c ! sendChan cl
                      else (chans c ! sendChan cl)
                             \<lparr>buf := buf (chans c ! sendChan cl) @ [broadcastMsg msg]\<rparr>)))"
proof -
  from run_inv [OF server_inv_init assms] have inv: "server_inv c" .
  then have caps: "\<forall>ch\<in>set (chans c). cap ch = 10 \<and> length (buf ch) \<le> 10"
    by (simp add: server_inv_def chan_ok_def)
  from SendMessage_effect [OF inv, of msg] obtain h' where
    r: "SendMessage c msg =
          Returned (Inr \<lparr>ClientID = ClientID msg, Content = ''message_received''\<rparr>) (c\<lparr>chans := h'\<rparr>)"
    and at: "\<forall>a<length (chans c).
              h' ! a = (if a \<in> targets (clients c) (ClientID msg) \<and> length (buf (chans c ! a)) < 10
                        then (chans c ! a)\<lparr>buf := buf (chans c ! a) @ [broadcastMsg msg]\<rparr>
                        else chans c ! a)"
    by blast
  have "h' ! sendChan cl =
          (if length (buf (chans c ! sendChan cl)) = 10 then chans c ! sendChan cl
           else (chans c ! sendChan cl)\<lparr>buf := buf (chans c ! sendChan cl) @ [broadcastMsg msg]\<rparr>)"
    if j: "map_of (clients c) j = Some cl" "j \<noteq> ClientID msg" for j cl
  proof -
    from entry_addr [OF inv j(1)] have lt: "sendChan cl < length (chans c)" by simp
    with caps have "length (buf (chans c ! sendChan cl)) \<le> 10" by simp
    moreover from j have "sendChan cl \<in> targets (clients c) (ClientID msg)"
      by (rule other_in_targets)
    ultimately show ?thesis using at lt by auto
  qed
  with r caps show ?thesis by auto
qed

text \<open>C4 at the example: the channel of \<^verbatim>\<open>A\<close> holds 10 texts; a post of \<^verbatim>\<open>B\<close> is
  acknowledged, leaves that channel as it is and reaches \<^verbatim>\<open>C\<close>.\<close>

theorem full_mailbox_drops_witness:
  "run init_server ops_full = Some ex_full \<and>
   length (buf (chans ex_full ! 0)) = 10 \<and>
   (\<exists>c'. SendMessage ex_full \<lparr>ClientID = ''B'', Content = ''y''\<rparr> =
            Returned (Inr \<lparr>ClientID = ''B'', Content = ''message_received''\<rparr>) c' \<and>
          chans c' ! 0 = chans ex_full ! 0 \<and>
          buf (chans c' ! 2) = [''[B]: y''])"
proof -
  let ?msg = "\<lparr>ClientID = ''B'', Content = ''y''\<rparr>"
  have hA: "map_of (clients ex_full) ''A'' = Some \<lparr>cid = ''A'', sendChan = 0\<rparr> \<and> ''A'' \<noteq> ClientID ?msg"
    and hC: "map_of (clients ex_full) ''C'' = Some \<lparr>cid = ''C'', sendChan = 2\<rparr> \<and> ''C'' \<noteq> ClientID ?msg"
    by (simp_all add: ex_full_def)
  from full_mailbox_drops [OF run_ex_full, of ?msg] obtain c' where
    r: "SendMessage ex_full ?msg =
          Returned (Inr \<lparr>ClientID = ''B'', Content = ''message_received''\<rparr>) c'"
    and at: "\<forall>j cl. map_of (clients ex_full) j = Some cl \<and> j \<noteq> ClientID ?msg \<longrightarrow>
                   chans c' ! sendChan cl =
                     (if length (buf (chans ex_full ! sendChan cl)) = 10 then chans ex_full ! sendChan cl
                      else (chans ex_full ! sendChan cl)
                             \<lparr>buf := buf (chans ex_full ! sendChan cl) @ [broadcastMsg ?msg]\<rparr>)"
    by auto
  from at [rule_format, OF hA] have a: "chans c' ! 0 = chans ex_full ! 0"
    by (simp add: ex_full_def)
  from at [rule_format, OF hC] have c: "buf (chans c' ! 2) = [''[B]: y'']"
    by (simp add: ex_full_def broadcastMsg_def)
  from r a c run_ex_full show ?thesis by (simp add: ex_full_def)
qed

subsection \<open>Polling\<close>

text \<open>
  C7. In a state that satisfies the invariant, \<^verbatim>\<open>GetMessages\<close> for an identifier that
  is not a key of the map returns the error \<^verbatim>\<open>client ... not found\<close> and changes nothing.
  For a key, it blocks when the client's channel is empty; otherwise it returns exactly
  one text, the oldest pending one, and takes it (and nothing else) out of the channel.
\<close>

theorem poll_one:
  assumes "server_inv c"
  shows "case map_of (clients c) i of
           None \<Rightarrow> GetMessages c i = Returned (Inl (''client '' @ i @ '' not found'')) c
         | Some cl \<Rightarrow>
             (case buf (chans c ! sendChan cl) of
                [] \<Rightarrow> GetMessages c i = Blocks
              | m # ms \<Rightarrow>
                  GetMessages c i =
                    Returned (Inr [m])
                      (c\<lparr>chans := (chans c)[sendChan cl := (chans c ! sendChan cl)\<lparr>buf := ms\<rparr>]\<rparr>))"
proof (cases "map_of (clients c) i")
  case None
  then show ?thesis by (simp add: GetMessages_def)
next
  case (Some cl)
  from entry_addr [OF assms Some] have "sendChan cl < length (chans c)"
    "\<not> closed (chans c ! sendChan cl)" by simp_all
  with Some show ?thesis
    by (simp add: GetMessages_def receive_one_def chan_at_def chan_recv_def split: list.splits)
qed

text \<open>C7 at the example: \<^verbatim>\<open>A\<close> is handed the notice that \<^verbatim>\<open>B\<close> joined, \<^verbatim>\<open>B\<close> has
  nothing pending and blocks, \<^verbatim>\<open>Z\<close> is unknown.\<close>

theorem poll_one_witness:
  "server_inv ex_AB \<and>
   GetMessages ex_AB ''A'' =
     Returned (Inr [joinMsg ''B''])
       (ex_AB\<lparr>chans := [\<lparr>buf = [], cap = 10, closed = False\<rparr>, \<lparr>buf = [], cap = 10, closed = False\<rparr>]\<rparr>) \<and>
   GetMessages ex_AB ''B'' = Blocks \<and>
   GetMessages ex_AB ''Z'' = Returned (Inl ''client Z not found'') ex_AB"
  using poll_one [OF inv_ex_AB, of "''A''"] poll_one [OF inv_ex_AB, of "''B''"]
    poll_one [OF inv_ex_AB, of "''Z''"] inv_ex_AB
  by (simp add: ex_AB_def)

subsection \<open>The acknowledgement of a post\<close>

lemma broadcast_loop_succeeds:
  "\<forall>e\<in>set es. sendChan (snd e) < length h \<and> \<not> closed (h ! sendChan (snd e)) \<Longrightarrow>
   \<exists>h'. broadcast_loop es s m h = Inr h'"
proof (induction es arbitrary: h)
  case Nil
  show ?case by simp
next
  case (Cons e es)
  obtain i cl where e: "e = (i, cl)" by (cases e)
  from Cons.prems e have a: "sendChan cl < length h" and op: "\<not> closed (h ! sendChan cl)"
    and rest: "\<forall>e\<in>set es. sendChan (snd e) < length h \<and> \<not> closed (h ! sendChan (snd e))"
    by auto
  show ?case
  proof (cases "i = s")
    case True
    with Cons.IH [OF rest] e show ?thesis by simp
  next
    case False
    from select_send_open [OF op] obtain ch' where
      ch': "select_send (h ! sendChan cl) m = Inr ch'" "\<not> closed ch'" by blast
    have "\<forall>e\<in>set es. sendChan (snd e) < length (h[sendChan cl := ch']) \<and>
            \<not> closed (h[sendChan cl := ch'] ! sendChan (snd e))"
    proof
      fix e' assume "e' \<in> set es"
      with rest have "sendChan (snd e') < length h" "\<not> closed (h ! sendChan (snd e'))" by auto
      with ch'(2) show "sendChan (snd e') < length (h[sendChan cl := ch']) \<and>
            \<not> closed (h[sendChan cl := ch'] ! sendChan (snd e'))"
        by (cases "sendChan (snd e') = sendChan cl") simp_all
    qed
    from Cons.IH [OF this] e False a ch'(1) show ?thesis
      by (simp add: chan_at_def)
  qed
qed

lemma server_inv_registered_open: "server_inv c \<Longrightarrow> registered_open c"
  by (simp add: server_inv_def entry_ok_def registered_open_def)

text \<open>
  C10. Take any message and any two states in which the entries of the map lead to open
  channels (as they do in every state the server reaches), whoever is registered in
  them, the sender or not, and whatever the channels hold. \<^verbatim>\<open>SendMessage\<close> returns
  in both, and with the same reply: the sender's identifier and the content
  \<^verbatim>\<open>message_received\<close>.
\<close>

theorem post_reply_independent:
  assumes "registered_open c1" and "registered_open c2"
  shows "reply_of (SendMessage c1 msg) = reply_of (SendMessage c2 msg) \<and>
         reply_of (SendMessage c1 msg) =
           Some (Inr \<lparr>ClientID = ClientID msg, Content = ''message_received''\<rparr>)"
proof -
  have "reply_of (SendMessage c msg) =
          Some (Inr \<lparr>ClientID = ClientID msg, Content = ''message_received''\<rparr>)"
    if "registered_open c" for c
  proof -
    from that have "\<forall>e\<in>set (clients c). sendChan (snd e) < length (chans c) \<and>
                             \<not> closed (chans c ! sendChan (snd e))"
      by (simp add: registered_open_def)
    from broadcast_loop_succeeds [OF this, of "ClientID msg" "broadcastMsg msg"]
    show ?thesis by (auto simp: SendMessage_def broadcastToOthers_def)
  qed
  with assms show ?thesis by simp
qed

text \<open>C10 at the example: the same reply from the empty server, where \<^verbatim>\<open>A\<close> is unknown,
  and from the server where \<^verbatim>\<open>A\<close> and \<^verbatim>\<open>B\<close> are registered.\<close>

theorem post_reply_independent_witness:
  "registered_open init_server \<and> registered_open ex_AB \<and>
   reply_of (SendMessage init_server \<lparr>ClientID = ''A'', Content = ''hi''\<rparr>) =
     reply_of (SendMessage ex_AB \<lparr>ClientID = ''A'', Content = ''hi''\<rparr>) \<and>
   reply_of (SendMessage init_server \<lparr>ClientID = ''A'', Content = ''hi''\<rparr>) =
     Some (Inr \<lparr>ClientID = ''A'', Content = ''message_received''\<rparr>)"
proof -
  have h1: "registered_open init_server" and h2: "registered_open ex_AB"
    by (simp_all add: registered_open_def init_server_def ex_AB_def)
  note t = post_reply_independent [OF h1 h2, of "\<lparr>ClientID = ''A'', Content = ''hi''\<rparr>"]
  have "ClientID \<lparr>ClientID = ''A'', Content = ''hi''\<rparr> = ''A''" by simp
  with t [THEN conjunct2] have
    "reply_of (SendMessage init_server \<lparr>ClientID = ''A'', Content = ''hi''\<rparr>) =
          Some (Inr \<lparr>ClientID = ''A'', Content = ''message_received''\<rparr>)"
    by (simp only:)
  with t [THEN conjunct1] h1 h2 show ?thesis by (intro conjI)
qed

subsection \<open>Leaving twice\<close>

lemma run_ex_AB_left:
  "run init_server [OpJoin ''A'', OpJoin ''B'', OpLeave ''B''] = Some ex_AB_left"
  by (simp add: exec_defs ex_AB_left_def)

lemma inv_ex_AB_left: "server_inv ex_AB_left"
  by (simp add: inv_defs ex_AB_left_def joinMsg_def leaveMsg_def loudspeaker_def)

text \<open>
  Against C3. \<^verbatim>\<open>Leave\<close> broadcasts its notice whether or not it found the client.
  After \<^verbatim>\<open>A\<close> and \<^verbatim>\<open>B\<close> joined and \<^verbatim>\<open>B\<close> left, a second \<^verbatim>\<open>Leave\<close> of \<^verbatim>\<open>B\<close>
  returns no error and removes nothing, but the channel of \<^verbatim>\<open>A\<close> holds the notice
  that \<^verbatim>\<open>B\<close> left a second time.
\<close>

theorem leave_twice_counterexample:
  "run init_server [OpJoin ''A'', OpJoin ''B'', OpLeave ''B''] = Some ex_AB_left \<and>
   Leave ex_AB_left \<lparr>req_ClientID = ''B''\<rparr> =
     Returned (Inr \<lparr>res_ClientID = ''B''\<rparr>)
       (ex_AB_left\<lparr>chans :=
          [\<lparr>buf = [joinMsg ''B'', leaveMsg ''B'', leaveMsg ''B''], cap = 10, closed = False\<rparr>,
           \<lparr>buf = [], cap = 10, closed = True\<rparr>]\<rparr>) \<and>
   buf (chans ex_AB_left ! 0) = [joinMsg ''B'', leaveMsg ''B'']"
  by (simp add: exec_defs ex_AB_left_def)

lemma Leave_absent:
  assumes "server_inv c" and "map_of (clients c) i = None"
  shows "\<exists>h'. Leave c \<lparr>req_ClientID = i\<rparr> = Returned (Inr \<lparr>res_ClientID = i\<rparr>) (c\<lparr>chans := h'\<rparr>) \<and>
           length h' = length (chans c) \<and>
           (\<forall>a<length (chans c).
              h' ! a = (if a \<in> targets (clients c) i \<and> length (buf (chans c ! a)) < 10
                        then (chans c ! a)\<lparr>buf := buf (chans c ! a) @ [leaveMsg i]\<rparr>
                        else chans c ! a))"
  using Leave_effect [OF assms(1), of "\<lparr>req_ClientID = i\<rparr>"] leave_remove_absent [OF assms(2)]
  by auto

lemma Leave_removes:
  assumes "server_inv c" and "Leave c \<lparr>req_ClientID = i\<rparr> = Returned r c'"
  shows "map_of (clients c') i = None"
proof -
  from Leave_effect [OF assms(1), of "\<lparr>req_ClientID = i\<rparr>"] assms(2) obtain c1 where
    c1: "leave_remove c i = Inr c1" and cl: "clients c' = clients c1"
    by auto
  have "map_of (clients c1) i = None"
  proof (cases "map_of (clients c) i")
    case None
    with c1 show ?thesis by (simp add: leave_remove_absent)
  next
    case (Some cl)
    from leave_remove_present [OF assms(1) Some] c1 show ?thesis
      by (auto simp: delete_conv')
  qed
  with cl show ?thesis by simp
qed

text \<open>
  C3, amended. In a state that satisfies the invariant, \<^verbatim>\<open>Leave\<close> for an identifier
  returns its acknowledgement, and a second \<^verbatim>\<open>Leave\<close> for the same identifier right
  after it returns the acknowledgement again, with no error; the second call leaves the
  map as the first left it and closes no channel. It does broadcast the notice once
  more: the channel of every client still registered has the notice appended when fewer
  than 10 texts are pending in it, and is unchanged when 10 are.
\<close>

theorem leave_twice:
  assumes "server_inv c"
  shows "\<exists>c1 c2.
           Leave c \<lparr>req_ClientID = i\<rparr> = Returned (Inr \<lparr>res_ClientID = i\<rparr>) c1 \<and>
           Leave c1 \<lparr>req_ClientID = i\<rparr> = Returned (Inr \<lparr>res_ClientID = i\<rparr>) c2 \<and>
           clients c2 = clients c1 \<and>
           length (chans c2) = length (chans c1) \<and>
           (\<forall>a<length (chans c1). closed (chans c2 ! a) = closed (chans c1 ! a)) \<and>
           (\<forall>j cl. map_of (clients c1) j = Some cl \<longrightarrow>
              chans c2 ! sendChan cl =
                (if length (buf (chans c1 ! sendChan cl)) < 10
                 then (chans c1 ! sendChan cl)\<lparr>buf := buf (chans c1 ! sendChan cl) @ [leaveMsg i]\<rparr>
                 else chans c1 ! sendChan cl))"
proof -
  from Leave_effect [OF assms, of "\<lparr>req_ClientID = i\<rparr>"] obtain c1 where
    l1: "Leave c \<lparr>req_ClientID = i\<rparr> = Returned (Inr \<lparr>res_ClientID = i\<rparr>) c1"
    by auto
  from Leave_inv [OF assms l1] have inv1: "server_inv c1" .
  from Leave_removes [OF assms l1] have gone: "map_of (clients c1) i = None" .
  from Leave_absent [OF inv1 gone] obtain h' where
    l2: "Leave c1 \<lparr>req_ClientID = i\<rparr> = Returned (Inr \<lparr>res_ClientID = i\<rparr>) (c1\<lparr>chans := h'\<rparr>)"
    and len: "length h' = length (chans c1)"
    and at: "\<forall>a<length (chans c1).
              h' ! a = (if a \<in> targets (clients c1) i \<and> length (buf (chans c1 ! a)) < 10
                        then (chans c1 ! a)\<lparr>buf := buf (chans c1 ! a) @ [leaveMsg i]\<rparr>
                        else chans c1 ! a)"
    by blast
  have cl: "\<forall>a<length (chans c1). closed (h' ! a) = closed (chans c1 ! a)"
    using at by simp
  have "h' ! sendChan cl =
          (if length (buf (chans c1 ! sendChan cl)) < 10
           then (chans c1 ! sendChan cl)\<lparr>buf := buf (chans c1 ! sendChan cl) @ [leaveMsg i]\<rparr>
           else chans c1 ! sendChan cl)"
    if j: "map_of (clients c1) j = Some cl" for j cl
  proof -
    from j gone have "j \<noteq> i" by auto
    with j have "sendChan cl \<in> targets (clients c1) i" by (rule other_in_targets)
    moreover from entry_addr [OF inv1 j] have "sendChan cl < length (chans c1)" by simp
    ultimately show ?thesis using at by simp
  qed
  with l1 l2 len cl show ?thesis by simp
qed

text \<open>The amended C3 at the example: \<^verbatim>\<open>B\<close> leaves the server of \<^verbatim>\<open>A\<close> and \<^verbatim>\<open>B\<close>
  twice; after the second call \<^verbatim>\<open>A\<close> is still the only key and has two notices more
  than before the first.\<close>

theorem leave_twice_witness:
  "server_inv ex_AB \<and>
   (\<exists>c2. Leave ex_AB \<lparr>req_ClientID = ''B''\<rparr> = Returned (Inr \<lparr>res_ClientID = ''B''\<rparr>) ex_AB_left \<and>
          Leave ex_AB_left \<lparr>req_ClientID = ''B''\<rparr> = Returned (Inr \<lparr>res_ClientID = ''B''\<rparr>) c2 \<and>
          clients c2 = clients ex_AB_left \<and>
          buf (chans c2 ! 0) = [joinMsg ''B'', leaveMsg ''B'', leaveMsg ''B''])"
proof -
  have l1: "Leave ex_AB \<lparr>req_ClientID = ''B''\<rparr> = Returned (Inr \<lparr>res_ClientID = ''B''\<rparr>) ex_AB_left"
    by (simp add: exec_defs ex_AB_def ex_AB_left_def)
  have hA: "map_of (clients ex_AB_left) ''A'' = Some \<lparr>cid = ''A'', sendChan = 0\<rparr>"
    by (simp add: ex_AB_left_def)
  from leave_twice [OF inv_ex_AB, of "''B''"] l1 obtain c2 where
    l2: "Leave ex_AB_left \<lparr>req_ClientID = ''B''\<rparr> = Returned (Inr \<lparr>res_ClientID = ''B''\<rparr>) c2"
    and cl: "clients c2 = clients ex_AB_left"
    and at: "\<forall>j cl. map_of (clients ex_AB_left) j = Some cl \<longrightarrow>
              chans c2 ! sendChan cl =
                (if length (buf (chans ex_AB_left ! sendChan cl)) < 10
                 then (chans ex_AB_left ! sendChan cl)\<lparr>buf := buf (chans ex_AB_left ! sendChan cl) @ [leaveMsg ''B'']\<rparr>
                 else chans ex_AB_left ! sendChan cl)"
    by auto
  from at [rule_format, OF hA] have "buf (chans c2 ! 0) = [joinMsg ''B'', leaveMsg ''B'', leaveMsg ''B'']"
    by (simp add: ex_AB_left_def)
  with l1 l2 cl inv_ex_AB show ?thesis by blast
qed

subsection \<open>Joining\<close>

lemma targets_update_own: "targets (AList.update i v es) i = targets es i"
proof (induction es)
  case Nil
  show ?case by (simp add: targets_def)
next
  case (Cons e es)
  obtain k w where e: "e = (k, w)" by (cases e)
  with Cons show ?case by simp
qed

lemma targets_addr_lt:
  "server_inv c \<Longrightarrow> a \<in> targets (clients c) s \<Longrightarrow> a < length (chans c)"
  by (auto simp: targets_def server_inv_def entry_ok_def)

lemma Join_new_entry:
  assumes "server_inv c"
  shows "\<exists>h'. Join c \<lparr>req_ClientID = i\<rparr> =
             Returned (Inr \<lparr>res_ClientID = i\<rparr>)
               \<lparr>clients = AList.update i \<lparr>cid = i, sendChan = length (chans c)\<rparr> (clients c),
                nextID = nextID c, chans = h'\<rparr> \<and>
           length h' = Suc (length (chans c)) \<and>
           h' ! length (chans c) = make_chan 10 \<and>
           (\<forall>a<length (chans c). a \<notin> targets (clients c) i \<longrightarrow> h' ! a = chans c ! a)"
proof -
  let ?c1 = "join_register c i"
  have tg: "targets (clients ?c1) i = targets (clients c) i"
    by (simp add: join_register_def targets_update_own)
  from Join_effect [OF assms, of "\<lparr>req_ClientID = i\<rparr>"] obtain h' where
    r: "Join c \<lparr>req_ClientID = i\<rparr> = Returned (Inr \<lparr>res_ClientID = i\<rparr>) (?c1\<lparr>chans := h'\<rparr>)"
    and len: "length h' = Suc (length (chans c))"
    and at0: "\<forall>a<Suc (length (chans c)).
              h' ! a = (if a \<in> targets (clients ?c1) i \<and> length (buf (chans ?c1 ! a)) < 10
                        then (chans ?c1 ! a)\<lparr>buf := buf (chans ?c1 ! a) @ [joinMsg i]\<rparr>
                        else chans ?c1 ! a)"
    by auto
  from at0 have at: "\<forall>a<Suc (length (chans c)).
              h' ! a = (if a \<in> targets (clients c) i \<and> length (buf (chans ?c1 ! a)) < 10
                        then (chans ?c1 ! a)\<lparr>buf := buf (chans ?c1 ! a) @ [joinMsg i]\<rparr>
                        else chans ?c1 ! a)"
    unfolding tg .
  have "length (chans c) \<notin> targets (clients c) i"
    using targets_addr_lt [OF assms] by blast
  with at have new: "h' ! length (chans c) = make_chan 10"
    by (simp add: join_register_def)
  have old: "\<forall>a<length (chans c). a \<notin> targets (clients c) i \<longrightarrow> h' ! a = chans c ! a"
    using at by (simp add: join_register_def nth_append)
  have "?c1\<lparr>chans := h'\<rparr> =
          \<lparr>clients = AList.update i \<lparr>cid = i, sendChan = length (chans c)\<rparr> (clients c),
           nextID = nextID c, chans = h'\<rparr>"
    by (simp add: join_register_def)
  with r len new old show ?thesis by auto
qed

text \<open>
  C5. In a state that satisfies the invariant, let \<open>i\<close> be a key of the map already,
  with client \<open>old\<close>. Then \<^verbatim>\<open>Join\<close> for \<open>i\<close> returns its acknowledgement; afterwards
  \<open>i\<close> is the key of a client with another channel, which is open, empty and of
  capacity 10; the channel of \<open>old\<close> is exactly what it was, so it is still open and
  holds the same pending texts; and no entry of the map leads to it any more.
\<close>

theorem join_again_replaces:
  assumes "server_inv c" and "map_of (clients c) i = Some old"
  shows "\<exists>c' new.
           Join c \<lparr>req_ClientID = i\<rparr> = Returned (Inr \<lparr>res_ClientID = i\<rparr>) c' \<and>
           map_of (clients c') i = Some new \<and>
           sendChan new \<noteq> sendChan old \<and>
           chan_at (chans c') (sendChan new) = Some \<lparr>buf = [], cap = 10, closed = False\<rparr> \<and>
           chan_at (chans c') (sendChan old) = Some (chans c ! sendChan old) \<and>
           \<not> closed (chans c ! sendChan old) \<and>
           (\<forall>j cl. map_of (clients c') j = Some cl \<longrightarrow> sendChan cl \<noteq> sendChan old)"
proof -
  let ?new = "\<lparr>cid = i, sendChan = length (chans c)\<rparr>"
  from Join_new_entry [OF assms(1), of i] obtain h' where
    r: "Join c \<lparr>req_ClientID = i\<rparr> =
          Returned (Inr \<lparr>res_ClientID = i\<rparr>)
            \<lparr>clients = AList.update i ?new (clients c), nextID = nextID c, chans = h'\<rparr>"
    and len: "length h' = Suc (length (chans c))"
    and new: "h' ! length (chans c) = make_chan 10"
    and old: "\<forall>a<length (chans c). a \<notin> targets (clients c) i \<longrightarrow> h' ! a = chans c ! a"
    by blast
  from assms(1) have da: "distinct (map (\<lambda>e. sendChan (snd e)) (clients c))"
    by (simp add: server_inv_def)
  from entry_addr [OF assms] have lt: "sendChan old < length (chans c)"
    and op: "\<not> closed (chans c ! sendChan old)" by simp_all
  from own_notin_targets [OF da assms(2)] old lt
  have same: "h' ! sendChan old = chans c ! sendChan old" by simp
  have unreachable: "sendChan cl \<noteq> sendChan old"
    if j: "map_of (AList.update i ?new (clients c)) j = Some cl" for j cl
  proof (cases "j = i")
    case True
    with j have "cl = ?new" by (simp add: update_conv')
    with lt show ?thesis by simp
  next
    case False
    with j have m: "map_of (clients c) j = Some cl" by (simp add: update_conv')
    show ?thesis
    proof
      assume "sendChan cl = sendChan old"
      with distinct_map_eq [OF da map_of_SomeD [OF m] map_of_SomeD [OF assms(2)]]
      have "(j, cl) = (i, old)" by simp
      with False show False by simp
    qed
  qed
  have "map_of (AList.update i ?new (clients c)) i = Some ?new"
    by (simp add: update_conv')
  with r len new same lt op unreachable show ?thesis
    by (auto simp: chan_at_def make_chan_def)
qed

text \<open>C5 at the example: \<^verbatim>\<open>A\<close> joins again while the notice that \<^verbatim>\<open>B\<close> joined is
  pending in its channel 0; the new channel is 2, channel 0 keeps the notice.\<close>

theorem join_again_replaces_witness:
  "server_inv ex_AB \<and> map_of (clients ex_AB) ''A'' = Some \<lparr>cid = ''A'', sendChan = 0\<rparr> \<and>
   (\<exists>c'. Join ex_AB \<lparr>req_ClientID = ''A''\<rparr> = Returned (Inr \<lparr>res_ClientID = ''A''\<rparr>) c' \<and>
          map_of (clients c') ''A'' = Some \<lparr>cid = ''A'', sendChan = 2\<rparr> \<and>
          chan_at (chans c') 0 = Some \<lparr>buf = [joinMsg ''B''], cap = 10, closed = False\<rparr>)"
proof -
  have h: "map_of (clients ex_AB) ''A'' = Some \<lparr>cid = ''A'', sendChan = 0\<rparr>"
    by (simp add: ex_AB_def)
  have j: "Join ex_AB \<lparr>req_ClientID = ''A''\<rparr> =
      Returned (Inr \<lparr>res_ClientID = ''A''\<rparr>)
        \<lparr>clients = [(''A'', \<lparr>cid = ''A'', sendChan = 2\<rparr>), (''B'', \<lparr>cid = ''B'', sendChan = 1\<rparr>)],
         nextID = 1,
         chans = [\<lparr>buf = [joinMsg ''B''], cap = 10, closed = False\<rparr>,
                  \<lparr>buf = [joinMsg ''A''], cap = 10, closed = False\<rparr>,
                  \<lparr>buf = [], cap = 10, closed = False\<rparr>]\<rparr>"
    by (simp add: exec_defs ex_AB_def)
  from join_again_replaces [OF inv_ex_AB h] j inv_ex_AB h show ?thesis
    by (auto simp: ex_AB_def chan_at_def)
qed

text \<open>
  C9. In a state that satisfies the invariant, \<^verbatim>\<open>Join\<close> returns for every identifier,
  with no error and with the acknowledgement that carries the identifier; afterwards the
  identifier is a key of the map, of a client with an open, empty channel of capacity
  10, and the keys are those of before and the identifier. No identifier makes
  \<^verbatim>\<open>Join\<close> fail: not one that is a key already, and not the empty one either.
\<close>

theorem join_succeeds:
  assumes "server_inv c"
  shows "\<exists>c' cl.
           Join c \<lparr>req_ClientID = i\<rparr> = Returned (Inr \<lparr>res_ClientID = i\<rparr>) c' \<and>
           map_of (clients c') i = Some cl \<and>
           chan_at (chans c') (sendChan cl) = Some \<lparr>buf = [], cap = 10, closed = False\<rparr> \<and>
           fst ` set (clients c') = insert i (fst ` set (clients c))"
proof -
  let ?new = "\<lparr>cid = i, sendChan = length (chans c)\<rparr>"
  from Join_new_entry [OF assms, of i] obtain h' where
    r: "Join c \<lparr>req_ClientID = i\<rparr> =
          Returned (Inr \<lparr>res_ClientID = i\<rparr>)
            \<lparr>clients = AList.update i ?new (clients c), nextID = nextID c, chans = h'\<rparr>"
    and len: "length h' = Suc (length (chans c))"
    and new: "h' ! length (chans c) = make_chan 10"
    by blast
  have "map_of (AList.update i ?new (clients c)) i = Some ?new"
    by (simp add: update_conv')
  moreover have "fst ` set (AList.update i ?new (clients c)) = insert i (fst ` set (clients c))"
    by (simp add: dom_update)
  ultimately show ?thesis using r len new
    by (auto simp: chan_at_def make_chan_def)
qed

text \<open>C9 at examples: a first join of \<^verbatim>\<open>A\<close>, a join of \<^verbatim>\<open>B\<close> where \<^verbatim>\<open>B\<close> is a key
  already, and a join under the empty identifier.\<close>

theorem join_succeeds_witness:
  "server_inv init_server \<and> server_inv ex_AB \<and>
   (\<exists>c'. Join init_server \<lparr>req_ClientID = ''A''\<rparr> = Returned (Inr \<lparr>res_ClientID = ''A''\<rparr>) c' \<and>
          fst ` set (clients c') = {''A''}) \<and>
   (\<exists>c'. Join ex_AB \<lparr>req_ClientID = ''B''\<rparr> = Returned (Inr \<lparr>res_ClientID = ''B''\<rparr>) c' \<and>
          fst ` set (clients c') = {''A'', ''B''}) \<and>
   (\<exists>c'. Join init_server \<lparr>req_ClientID = ''''\<rparr> = Returned (Inr \<lparr>res_ClientID = ''''\<rparr>) c' \<and>
          fst ` set (clients c') = {''''})"
proof -
  from join_succeeds [OF server_inv_init, of "''A''"]
  have a: "\<exists>c'. Join init_server \<lparr>req_ClientID = ''A''\<rparr> = Returned (Inr \<lparr>res_ClientID = ''A''\<rparr>) c' \<and>
          fst ` set (clients c') = {''A''}"
    by (auto simp: init_server_def)
  from join_succeeds [OF inv_ex_AB, of "''B''"]
  have b: "\<exists>c'. Join ex_AB \<lparr>req_ClientID = ''B''\<rparr> = Returned (Inr \<lparr>res_ClientID = ''B''\<rparr>) c' \<and>
          fst ` set (clients c') = {''A'', ''B''}"
    by (auto simp: ex_AB_def)
  from join_succeeds [OF server_inv_init, of "''''"]
  have e: "\<exists>c'. Join init_server \<lparr>req_ClientID = ''''\<rparr> = Returned (Inr \<lparr>res_ClientID = ''''\<rparr>) c' \<and>
          fst ` set (clients c') = {''''}"
    by (auto simp: init_server_def)
  from a b e server_inv_init inv_ex_AB show ?thesis by blast
qed

subsection \<open>The keys of the map\<close>

lemma keys_delete: "fst ` set (AList.delete k al) = fst ` set al - {k}"
  by (force simp: AList.delete_eq)

lemma leave_remove_keys:
  assumes "server_inv c" and "leave_remove c i = Inr c1"
  shows "fst ` set (clients c1) = fst ` set (clients c) - {i}"
proof (cases "map_of (clients c) i")
  case None
  then have "i \<notin> fst ` set (clients c)" by (simp add: map_of_eq_None_iff)
  with None assms(2) show ?thesis by (auto simp: leave_remove_absent)
next
  case (Some cl)
  from leave_remove_present [OF assms(1) Some] assms(2) show ?thesis
    by (auto simp: keys_delete)
qed

lemma step_keys:
  assumes "server_inv c" and "step c x = Some c'"
  shows "fst ` set (clients c') = joined_after (fst ` set (clients c)) [x]"
proof (cases x)
  case (OpJoin i)
  from Join_new_entry [OF assms(1), of i] obtain h' where
    "Join c \<lparr>req_ClientID = i\<rparr> =
       Returned (Inr \<lparr>res_ClientID = i\<rparr>)
         \<lparr>clients = AList.update i \<lparr>cid = i, sendChan = length (chans c)\<rparr> (clients c),
          nextID = nextID c, chans = h'\<rparr>"
    by blast
  with OpJoin assms(2) have "clients c' = AList.update i \<lparr>cid = i, sendChan = length (chans c)\<rparr> (clients c)"
    by auto
  with OpJoin show ?thesis by (simp add: dom_update)
next
  case (OpPost i content)
  with assms(2) SendMessage_effect [OF assms(1), of "\<lparr>ClientID = i, Content = content\<rparr>"]
  have "clients c' = clients c" by auto
  with OpPost show ?thesis by simp
next
  case (OpLeave i)
  from Leave_effect [OF assms(1), of "\<lparr>req_ClientID = i\<rparr>"] obtain c1 h' where
    c1: "leave_remove c i = Inr c1"
    and l: "Leave c \<lparr>req_ClientID = i\<rparr> = Returned (Inr \<lparr>res_ClientID = i\<rparr>) (c1\<lparr>chans := h'\<rparr>)"
    by auto
  from OpLeave assms(2) l have "clients c' = clients c1" by auto
  with leave_remove_keys [OF assms(1) c1] OpLeave show ?thesis by simp
next
  case (OpPollOne i)
  with assms(2) have "clients c' = clients c"
    by (auto simp: after_Some GetMessages_def receive_one_def split: option.splits)
  with OpPollOne show ?thesis by simp
qed

lemma joined_after_Cons: "joined_after J (x # xs) = joined_after (joined_after J [x]) xs"
  by (cases x) simp_all

lemma run_keys:
  "server_inv c \<Longrightarrow> run c xs = Some c' \<Longrightarrow>
   fst ` set (clients c') = joined_after (fst ` set (clients c)) xs"
proof (induction xs arbitrary: c)
  case Nil
  then show ?case by simp
next
  case (Cons x xs)
  from Cons.prems(2) obtain c1 where s: "step c x = Some c1" and r: "run c1 xs = Some c'"
    by (auto split: option.splits)
  from step_inv [OF Cons.prems(1) s] have "server_inv c1" .
  from Cons.IH [OF this r] step_keys [OF Cons.prems(1) s] show ?case
    by (simp add: joined_after_Cons [of _ x xs])
qed

lemma step_None_iff:
  assumes "server_inv c"
  shows "step c x = None \<longleftrightarrow>
           (\<exists>i cl. x = OpPollOne i \<and> map_of (clients c) i = Some cl \<and>
                   buf (chans c ! sendChan cl) = [])"
proof (cases x)
  case (OpJoin i)
  with Join_effect [OF assms, of "\<lparr>req_ClientID = i\<rparr>"] show ?thesis by auto
next
  case (OpPost i content)
  with SendMessage_effect [OF assms, of "\<lparr>ClientID = i, Content = content\<rparr>"] show ?thesis by auto
next
  case (OpLeave i)
  with Leave_effect [OF assms, of "\<lparr>req_ClientID = i\<rparr>"] show ?thesis by auto
next
  case (OpPollOne i)
  show ?thesis
  proof (cases "map_of (clients c) i")
    case None
    with OpPollOne show ?thesis by (simp add: GetMessages_def)
  next
    case (Some cl)
    from entry_addr [OF assms Some] have "sendChan cl < length (chans c)"
      "\<not> closed (chans c ! sendChan cl)" by simp_all
    with OpPollOne Some show ?thesis
      by (simp add: GetMessages_def receive_one_def chan_at_def chan_recv_def split: list.splits)
  qed
qed

text \<open>
  C6. In every state that a run of \<^verbatim>\<open>Join\<close>, \<^verbatim>\<open>SendMessage\<close>, \<^verbatim>\<open>Leave\<close> and
  \<^verbatim>\<open>GetMessages\<close> calls from the start leads to, the keys of the map are exactly the
  participants that joined and did not leave since (a set that only a join enlarges and
  only a leave reduces); no key occurs twice, no two keys share a channel, and every
  key leads to a client that carries the key and owns an open channel of the store.
\<close>

theorem registry_is_joined_set:
  assumes "run init_server ops = Some c"
  shows "fst ` set (clients c) = joined_after {} ops \<and>
         distinct (map fst (clients c)) \<and>
         distinct (map (\<lambda>e. sendChan (snd e)) (clients c)) \<and>
         (\<forall>i cl. map_of (clients c) i = Some cl \<longrightarrow>
            cid cl = i \<and> sendChan cl < length (chans c) \<and> \<not> closed (chans c ! sendChan cl))"
proof -
  from run_inv [OF server_inv_init assms] have inv: "server_inv c" .
  from run_keys [OF server_inv_init assms] have "fst ` set (clients c) = joined_after {} ops"
    by (simp add: init_server_def)
  moreover from inv have "distinct (map fst (clients c))"
    "distinct (map (\<lambda>e. sendChan (snd e)) (clients c))"
    by (simp_all add: server_inv_def)
  moreover from inv have "\<forall>i cl. map_of (clients c) i = Some cl \<longrightarrow>
            cid cl = i \<and> sendChan cl < length (chans c) \<and> \<not> closed (chans c ! sendChan cl)"
    by (simp add: entry_addr)
  ultimately show ?thesis by blast
qed

lemma run_ops_all: "run init_server ops_all = Some ex_AB_left"
  by (simp add: exec_defs ops_all_def ex_AB_left_def broadcastMsg_def)

text \<open>C6 at an example with all four operations: \<^verbatim>\<open>A\<close> and \<^verbatim>\<open>B\<close> join,
  \<^verbatim>\<open>A\<close> posts, \<^verbatim>\<open>B\<close> polls, \<^verbatim>\<open>B\<close> leaves; \<^verbatim>\<open>A\<close> is the one key left.\<close>

theorem registry_is_joined_set_witness:
  "run init_server ops_all = Some ex_AB_left \<and>
   joined_after {} ops_all = {''A''} \<and>
   fst ` set (clients ex_AB_left) = joined_after {} ops_all \<and>
   distinct (map fst (clients ex_AB_left))"
proof -
  have "joined_after {} ops_all = {''A''}"
    by (simp add: ops_all_def)
  with registry_is_joined_set [OF run_ops_all] run_ops_all show ?thesis by blast
qed

subsection \<open>Receiving from a closed channel\<close>






text \<open>A client that polls after its \<^verbatim>\<open>Leave\<close> is told that it is not found.\<close>

lemma poll_after_leave:
  assumes "server_inv c" and "Leave c \<lparr>req_ClientID = i\<rparr> = Returned r c'"
  shows "GetMessages c' i = Returned (Inl (''client '' @ i @ '' not found'')) c'"
  using Leave_removes [OF assms] by (simp add: GetMessages_def)

end
